theory Spec2Isabelle
  imports Complex_Main "HOL-Library.Sublist"
begin

section \<open>Data model\<close>

text \<open>
  The Go struct \<^verbatim>\<open>Product\<close>. The four strings are Go strings, \<^verbatim>\<open>RatingCount\<close> is a
  Go \<^verbatim>\<open>int\<close>, and \<^verbatim>\<open>RatingAvg\<close> is a \<^verbatim>\<open>float64\<close>, kept here as a real number: the
  scraping loop copies both rating fields and never computes with them.
\<close>

record Product =
  URL :: string
  Name :: string
  Image :: string
  Price :: string
  RatingAvg :: real
  RatingCount :: int

text \<open>
  \<^verbatim>\<open>fmt.Errorf("failed to navigate or evaluate page %d: %w", page, err)\<close> and
  \<^verbatim>\<open>fmt.Errorf("error scraping page %d: %w", page, err)\<close>: each error value carries the
  page number that is formatted into its message and the error it wraps.
\<close>

datatype 'e extract_error = FailedToNavigateOrEvaluate int 'e

datatype 'x scrape_error = ErrorScrapingPage int 'x

text \<open>
  A page extractor is what \<^verbatim>\<open>scrapeProducts\<close> calls once per iteration: from the state
  of the browser session behind \<^verbatim>\<open>ctx\<close> and a page number it gives either an error or
  the products of the page, and the next state of the session.
\<close>

type_synonym ('x, 'w) extractor = "'w \<Rightarrow> int \<Rightarrow> ('x + Product list) \<times> 'w"

section \<open>addProductsWithoutDuplicates\<close>

text \<open>
  The \<^verbatim>\<open>for ... range pageProducts\<close> loop, with the slice behind \<^verbatim>\<open>products\<close>, the map
  \<^verbatim>\<open>seen\<close> (a set of URLs) and the counter \<^verbatim>\<open>addedCount\<close> passed along. The first
  test is the \<^verbatim>\<open>break\<close> on a full slice.
\<close>

fun addLoop :: "Product list \<Rightarrow> Product list \<Rightarrow> string set \<Rightarrow> int \<Rightarrow> int
    \<Rightarrow> Product list \<times> string set \<times> int" where
  "addLoop products [] seen maxProducts addedCount = (products, seen, addedCount)"
| "addLoop products (product # rest) seen maxProducts addedCount =
     (if int (length products) \<ge> maxProducts then (products, seen, addedCount)
      else if URL product \<notin> seen
        then addLoop (products @ [product]) rest (insert (URL product) seen) maxProducts
               (addedCount + 1)
        else addLoop products rest seen maxProducts addedCount)"

definition addProductsWithoutDuplicates ::
    "Product list \<Rightarrow> Product list \<Rightarrow> string set \<Rightarrow> int \<Rightarrow> Product list \<times> string set \<times> int" where
  "addProductsWithoutDuplicates products pageProducts seen maxProducts =
     addLoop products pageProducts seen maxProducts 0"

section \<open>scrapeProducts\<close>

text \<open>
  The \<^verbatim>\<open>for len(products) < maxProducts\<close> loop. It returns \<^verbatim>\<open>(nil, error)\<close> as \<open>Inl\<close> and
  \<^verbatim>\<open>(products, nil)\<close> as \<open>Inr\<close>, together with the session state left behind. Nothing
  in the loop bounds the number of iterations by itself, so the loop is a partial
  function and its termination is a theorem.

  The function called for each page is the first argument, so that the loop can be run
  against any page extractor; the program is the loop with \<^verbatim>\<open>extractProductsFromPage\<close>,
  defined below. \<^verbatim>\<open>page\<close> and \<^verbatim>\<open>maxProducts\<close> are Go \<^verbatim>\<open>int\<close>s, here unbounded integers:
  the page counter never passes \<^verbatim>\<open>maxProducts\<close>, which is proved with the page numbers.
  The two lines the loop writes to the log and to the standard output before a
  \<^verbatim>\<open>break\<close> are output only and are left out, as are \<^verbatim>\<open>main\<close> and \<^verbatim>\<open>outputResults\<close>, which
  call \<^verbatim>\<open>scrapeProducts\<close> with \<^verbatim>\<open>maxProducts = 100\<close> and print what it returns.
\<close>

partial_function (option) scrapeLoop ::
    "('x, 'w) extractor \<Rightarrow> int \<Rightarrow> Product list \<Rightarrow> int \<Rightarrow> string set \<Rightarrow> 'w
      \<Rightarrow> (('x scrape_error + Product list) \<times> 'w) option" where
  "scrapeLoop extractProductsFromPage maxProducts products page seen ctx =
     (if int (length products) < maxProducts then
        (case extractProductsFromPage ctx page of
           (Inl err, ctx') \<Rightarrow> Some (Inl (ErrorScrapingPage page err), ctx')
         | (Inr pageProducts, ctx') \<Rightarrow>
             if length pageProducts = 0 then Some (Inr products, ctx')
             else
               (case addProductsWithoutDuplicates products pageProducts seen maxProducts of
                  (products', seen', productsAdded) \<Rightarrow>
                    if productsAdded = 0 \<and> length products' > 0
                    then Some (Inr products', ctx')
                    else scrapeLoop extractProductsFromPage maxProducts products'
                           (page + 1) seen' ctx'))
      else Some (Inr products, ctx))"

definition scrapeProducts ::
    "('x, 'w) extractor \<Rightarrow> 'w \<Rightarrow> int \<Rightarrow> (('x scrape_error + Product list) \<times> 'w) option" where
  "scrapeProducts extractProductsFromPage ctx maxProducts =
     scrapeLoop extractProductsFromPage maxProducts [] 1 {} ctx"

section \<open>extractProductsFromPage\<close>

text \<open>
  \<^verbatim>\<open>fmt.Sprintf(urlTemplate, page)\<close>: the template has one verb, \<^verbatim>\<open>%d\<close>, which prints a
  Go \<^verbatim>\<open>int\<close> in decimal, with a minus sign when it is negative.
\<close>

definition urlTemplate :: string where
  "urlTemplate = ''https://raidlight.com/collections/all?page=%d''"

fun decimal :: "nat \<Rightarrow> string" where
  "decimal n =
     (if n < 10 then [char_of (48 + n)] else decimal (n div 10) @ [char_of (48 + n mod 10)])"

definition formatInt :: "int \<Rightarrow> string" where
  "formatInt i = (if i < 0 then CHR ''-'' # decimal (nat (- i)) else decimal (nat i))"

fun Sprintf :: "string \<Rightarrow> int \<Rightarrow> string" where
  "Sprintf [] i = []"
| "Sprintf (c # cs) i =
     (if c = CHR ''%'' \<and> take 1 cs = ''d'' then formatInt i @ drop 1 cs
      else c # Sprintf cs i)"

text \<open>\<^verbatim>\<open>String.prototype.includes\<close>: the second string occurs somewhere in the first.\<close>

fun stringIncludes :: "string \<Rightarrow> string \<Rightarrow> bool" where
  "stringIncludes [] t = (t = [])"
| "stringIncludes (c # cs) t = (take (length t) (c # cs) = t \<or> stringIncludes cs t)"

text \<open>
  The script \<^verbatim>\<open>extractJSContent\<close> ends in
  \<^verbatim>\<open>.filter(p => p.url && p.url.includes('/products/'))\<close>. Its argument here is the array
  the preceding \<^verbatim>\<open>.map(...)\<close> built, one object per \<^verbatim>\<open>.grid-product\<close> element of the
  rendered page, already in the shape \<^verbatim>\<open>chromedp.Evaluate\<close> decodes into \<^verbatim>\<open>[]Product\<close>.
  A JavaScript string is truthy when it is not empty.
\<close>

definition extractJSContent :: "Product list \<Rightarrow> Product list" where
  "extractJSContent mapped =
     filter (\<lambda>p. URL p \<noteq> [] \<and> stringIncludes (URL p) ''/products/'') mapped"

text \<open>
  \<^verbatim>\<open>extractProductsFromPage\<close>. The browser is a parameter: \<open>chromedpRun ctx url\<close> stands for
  navigating the session to \<open>url\<close>, waiting for the body and for the first
  \<^verbatim>\<open>.grid-product\<close>, and evaluating the script up to its final filter; it fails with an
  error of the library or gives the mapped objects.
\<close>

definition extractProductsFromPage ::
    "('w \<Rightarrow> string \<Rightarrow> ('e + Product list) \<times> 'w) \<Rightarrow> ('e extract_error, 'w) extractor" where
  "extractProductsFromPage chromedpRun ctx page =
     (let url = Sprintf urlTemplate page in
      case chromedpRun ctx url of
        (Inl err, ctx') \<Rightarrow> (Inl (FailedToNavigateOrEvaluate page err), ctx')
      | (Inr mapped, ctx') \<Rightarrow> (Inr (extractJSContent mapped), ctx'))"

section \<open>Observing a run\<close>

text \<open>
  An extractor that also keeps, in the session state, the list of the calls made to it:
  each page number with the response given.
\<close>

type_synonym 'x calls = "(int \<times> ('x + Product list)) list"

definition recording :: "('x, 'w) extractor \<Rightarrow> ('x, 'w \<times> 'x calls) extractor" where
  "recording extract st page =
     (case extract (fst st) page of (r, ctx') \<Rightarrow> (r, (ctx', snd st @ [(page, r)])))"

text \<open>All the products of the recorded pages, in the order of delivery.\<close>

fun delivered :: "'x calls \<Rightarrow> Product list" where
  "delivered [] = []"
| "delivered ((page, Inl err) # calls) = delivered calls"
| "delivered ((page, Inr pageProducts) # calls) = pageProducts @ delivered calls"

text \<open>
  The first-seen order of the specification: going through the records in the order they
  were observed, a record is kept when no record kept before it has its URL.
\<close>

definition firstSeen :: "Product list \<Rightarrow> Product list" where
  "firstSeen observed =
     foldl (\<lambda>kept p. if URL p \<in> URL ` set kept then kept else kept @ [p]) [] observed"

text \<open>
  A scripted storefront for examples: page \<open>i\<close> answers with the \<open>i\<close>-th response of a
  list, and a page beyond the list is empty. The session state is left as it is.
\<close>

definition scripted :: "('x + Product list) list \<Rightarrow> ('x, 'w) extractor" where
  "scripted responses ctx page =
     (if 1 \<le> page \<and> page \<le> int (length responses) then (responses ! nat (page - 1), ctx)
      else (Inr [], ctx))"

definition item :: "string \<Rightarrow> string \<Rightarrow> Product" where
  "item url name =
     \<lparr>URL = url, Name = name, Image = [], Price = [], RatingAvg = 0, RatingCount = 0\<rparr>"

text \<open>A storefront that answers every page number with the same products.\<close>

definition repeating :: "Product list \<Rightarrow> ('x, 'w) extractor" where
  "repeating pageProducts ctx page = (Inr pageProducts, ctx)"

text \<open>
  A scripted browser for examples: the rendering of each known address, and an error for
  every other address.
\<close>

definition rendering ::
    "(string \<times> ('e + Product list)) list \<Rightarrow> 'e \<Rightarrow> 'w \<Rightarrow> string \<Rightarrow> ('e + Product list) \<times> 'w" where
  "rendering site timeout ctx url =
     (case map_of site url of Some r \<Rightarrow> (r, ctx) | None \<Rightarrow> (Inl timeout, ctx))"

declare scrapeLoop.simps [code]

section \<open>What addProductsWithoutDuplicates does to the slice and the set\<close>

lemma addLoop_appends:
  "addLoop products ps seen m a = (products', seen', a') \<Longrightarrow>
   \<exists>new. products' = products @ new \<and> a' = a + int (length new) \<and>
     seen' = seen \<union> URL ` set new \<and> set new \<subseteq> set ps \<and>
     distinct (map URL new) \<and> URL ` set new \<inter> seen = {}"
proof (induction ps arbitrary: products seen a)
  case Nil
  then show ?case by simp
next
  case (Cons p ps)
  show ?case
  proof (cases "int (length products) \<ge> m")
    case True
    with Cons.prems show ?thesis by simp
  next
    case budget: False
    show ?thesis
    proof (cases "URL p \<in> seen")
      case True
      with budget Cons.prems have "addLoop products ps seen m a = (products', seen', a')"
        by simp
      from Cons.IH [OF this] show ?thesis by auto
    next
      case False
      with budget Cons.prems
      have "addLoop (products @ [p]) ps (insert (URL p) seen) m (a + 1) = (products', seen', a')"
        by simp
      from Cons.IH [OF this] obtain new where
        n: "products' = (products @ [p]) @ new" "a' = a + 1 + int (length new)"
           "seen' = insert (URL p) seen \<union> URL ` set new" "set new \<subseteq> set ps"
           "distinct (map URL new)" "URL ` set new \<inter> insert (URL p) seen = {}"
        by blast
      show ?thesis
        by (rule exI [of _ "p # new"]) (use n False in auto)
    qed
  qed
qed

lemma addLoop_bound:
  "addLoop products ps seen m a = (products', seen', a') \<Longrightarrow>
   int (length products) \<le> m \<Longrightarrow> int (length products') \<le> m"
  by (induction ps arbitrary: products seen a) (auto split: if_splits)

lemma addLoop_full:
  "int (length products) \<ge> m \<Longrightarrow> addLoop products ps seen m a = (products, seen, a)"
  by (cases ps) auto

lemma addLoop_append:
  "addLoop products (xs @ ys) seen m a =
     (case addLoop products xs seen m a of (p', s', a') \<Rightarrow> addLoop p' ys s' m a')"
  by (induction xs arbitrary: products seen a) (auto simp: addLoop_full)

lemma addLoop_all_seen:
  "URL ` set ps \<subseteq> seen \<Longrightarrow> addLoop products ps seen m a = (products, seen, a)"
  by (induction ps) auto

lemma addLoop_first_new:
  "addLoop products (p # ps) seen m a = (products', seen', a') \<Longrightarrow>
   int (length products) < m \<Longrightarrow> URL p \<notin> seen \<Longrightarrow> a < a'"
  by (auto dest!: addLoop_appends)

lemma addLoop_not_full:
  "addLoop products ps seen m a = (products', seen', a') \<Longrightarrow>
   int (length products') < m \<Longrightarrow> seen' = seen \<union> URL ` set ps"
  by (induction ps arbitrary: products seen a) (auto split: if_splits)

lemma scrapeLoop_full:
  "\<not> int (length products) < m \<Longrightarrow> scrapeLoop e m products page seen ctx = Some (Inr products, ctx)"
  by (subst scrapeLoop.simps) simp

lemma scrapeLoop_error:
  "int (length products) < m \<Longrightarrow> e ctx page = (Inl err, ctx') \<Longrightarrow>
   scrapeLoop e m products page seen ctx = Some (Inl (ErrorScrapingPage page err), ctx')"
  by (subst scrapeLoop.simps) simp

lemma scrapeLoop_empty:
  "int (length products) < m \<Longrightarrow> e ctx page = (Inr [], ctx') \<Longrightarrow>
   scrapeLoop e m products page seen ctx = Some (Inr products, ctx')"
  by (subst scrapeLoop.simps) simp

lemma scrapeLoop_no_new:
  "int (length products) < m \<Longrightarrow> e ctx page = (Inr pps, ctx') \<Longrightarrow> pps \<noteq> [] \<Longrightarrow>
   addProductsWithoutDuplicates products pps seen m = (products', seen', 0) \<Longrightarrow>
   products' \<noteq> [] \<Longrightarrow>
   scrapeLoop e m products page seen ctx = Some (Inr products', ctx')"
  by (subst scrapeLoop.simps) simp

lemma scrapeLoop_next:
  "int (length products) < m \<Longrightarrow> e ctx page = (Inr pps, ctx') \<Longrightarrow> pps \<noteq> [] \<Longrightarrow>
   addProductsWithoutDuplicates products pps seen m = (products', seen', n) \<Longrightarrow>
   \<not> (n = 0 \<and> products' \<noteq> []) \<Longrightarrow>
   scrapeLoop e m products page seen ctx = scrapeLoop e m products' (page + 1) seen' ctx'"
  by (subst scrapeLoop.simps) auto

lemma next_grows:
  assumes inv: "seen = URL ` set products"
    and lt: "int (length products) < m"
    and ne: "pps \<noteq> []"
    and add: "addProductsWithoutDuplicates products pps seen m = (products', seen', n)"
    and cont: "\<not> (n = 0 \<and> products' \<noteq> [])"
  shows "length products < length products'" and "int (length products') \<le> m"
    and "seen' = URL ` set products'"
proof -
  from add obtain new where
    new: "products' = products @ new" "n = int (length new)" "seen' = seen \<union> URL ` set new"
    unfolding addProductsWithoutDuplicates_def by (auto dest!: addLoop_appends)
  show "seen' = URL ` set products'" using new inv by auto
  show "int (length products') \<le> m"
    using add lt unfolding addProductsWithoutDuplicates_def by (auto dest: addLoop_bound)
  show "length products < length products'"
  proof (cases "n = 0")
    case False
    with new show ?thesis by simp
  next
    case True
    with cont new have "products = []" by simp
    with inv have "seen = {}" by simp
    obtain p ps where "pps = p # ps" using ne by (cases pps) auto
    with add have "addLoop products (p # ps) seen m 0 = (products', seen', n)"
      by (simp only: addProductsWithoutDuplicates_def)
    from addLoop_first_new [OF this lt] \<open>seen = {}\<close> have "0 < n" by simp
    with True show ?thesis by simp
  qed
qed

lemma scrapeLoop_induct [consumes 1, case_names iteration]:
  assumes inv: "seen = URL ` set products"
    and step: "\<And>products page seen ctx.
      seen = URL ` set products \<Longrightarrow>
      (\<And>pps ctx' products' seen' n.
         int (length products) < m \<Longrightarrow> e ctx page = (Inr pps, ctx') \<Longrightarrow> pps \<noteq> [] \<Longrightarrow>
         addProductsWithoutDuplicates products pps seen m = (products', seen', n) \<Longrightarrow>
         \<not> (n = 0 \<and> products' \<noteq> []) \<Longrightarrow> P products' (page + 1) seen' ctx') \<Longrightarrow>
      P products page seen ctx"
  shows "P products page seen ctx"
  using inv
proof (induction "nat (m - int (length products))" arbitrary: products page seen ctx
    rule: less_induct)
  case less
  show ?case
  proof (rule step [OF less.prems])
    fix pps ctx' products' seen' n
    assume a: "int (length products) < m" "pps \<noteq> []"
      "addProductsWithoutDuplicates products pps seen m = (products', seen', n)"
      "\<not> (n = 0 \<and> products' \<noteq> [])"
    note g = next_grows [OF less.prems a]
    show "P products' (page + 1) seen' ctx'"
      by (rule less.hyps) (use g a in auto)
  qed
qed

lemma scrapeLoop_returns:
  assumes "seen = URL ` set products"
  shows "\<exists>r. scrapeLoop e m products page seen ctx = Some r"
  using assms
proof (induction products page seen ctx rule: scrapeLoop_induct [where e = e and m = m])
  case (iteration products page seen ctx)
  show ?case
  proof (cases "int (length products) < m")
    case False
    then show ?thesis by (simp add: scrapeLoop_full)
  next
    case lt: True
    obtain r ctx' where ex0: "e ctx page = (r, ctx')" by (cases "e ctx page")
    show ?thesis
    proof (cases r)
      case (Inl err)
      with lt ex0 show ?thesis by (simp add: scrapeLoop_error)
    next
      case (Inr pps)
      with ex0 have ex: "e ctx page = (Inr pps, ctx')" by simp
      show ?thesis
      proof (cases "pps = []")
        case True
        with lt ex Inr show ?thesis by (simp add: scrapeLoop_empty)
      next
        case ne: False
        obtain products' seen' n where
          add: "addProductsWithoutDuplicates products pps seen m = (products', seen', n)"
          by (cases "addProductsWithoutDuplicates products pps seen m")
        show ?thesis
        proof (cases "n = 0 \<and> products' \<noteq> []")
          case True
          with lt ex Inr ne add show ?thesis by (simp add: scrapeLoop_no_new)
        next
          case False
          from iteration.IH [OF lt ex ne add False]
          have "\<exists>r. scrapeLoop e m products' (page + 1) seen' ctx' = Some r" .
          with scrapeLoop_next [where e = e and ctx = ctx, OF lt ex ne add False] show ?thesis by simp
        qed
      qed
    qed
  qed
qed

section \<open>The loop, one iteration at a time\<close>

lemma recording_eq:
  "e c page = (r, c1) \<Longrightarrow> recording e (c, made) page = (r, (c1, made @ [(page, r)]))"
  by (simp add: recording_def)

lemma addPWD_none_added:
  "addProductsWithoutDuplicates products pps seen m = (products', seen', 0) \<Longrightarrow>
   products' = products \<and> seen' = seen"
  unfolding addProductsWithoutDuplicates_def by (auto dest!: addLoop_appends)

lemma addPWD_added_pos:
  assumes "seen = URL ` set products" "int (length products) < m" "pps \<noteq> []"
    "addProductsWithoutDuplicates products pps seen m = (products', seen', n)"
    "\<not> (n = 0 \<and> products' \<noteq> [])"
  shows "0 < n"
proof -
  from assms(4) obtain new where "products' = products @ new" "n = int (length new)"
    unfolding addProductsWithoutDuplicates_def by (auto dest!: addLoop_appends)
  with next_grows(1) [OF assms] show ?thesis by auto
qed

lemma recorded_cases [consumes 1, case_names full error empty no_new further]:
  assumes run: "scrapeLoop (recording e) m products page seen (c, made) = Some (res, c', calls)"
  obtains
    (full) "\<not> int (length products) < m" "res = Inr products" "c' = c" "calls = made"
  | (error) err where "int (length products) < m" "e c page = (Inl err, c')"
      "res = Inl (ErrorScrapingPage page err)" "calls = made @ [(page, Inl err)]"
  | (empty) "int (length products) < m" "e c page = (Inr [], c')"
      "res = Inr products" "calls = made @ [(page, Inr [])]"
  | (no_new) pps where "int (length products) < m" "e c page = (Inr pps, c')" "pps \<noteq> []"
      "addProductsWithoutDuplicates products pps seen m = (products, seen, 0)"
      "products \<noteq> []" "res = Inr products" "calls = made @ [(page, Inr pps)]"
  | (further) pps c1 products' seen' n where "int (length products) < m"
      "e c page = (Inr pps, c1)" "pps \<noteq> []"
      "addProductsWithoutDuplicates products pps seen m = (products', seen', n)"
      "\<not> (n = 0 \<and> products' \<noteq> [])"
      "scrapeLoop (recording e) m products' (page + 1) seen' (c1, made @ [(page, Inr pps)])
         = Some (res, c', calls)"
proof (cases "int (length products) < m")
  case False
  with run have "res = Inr products" "c' = c" "calls = made"
    by (auto simp: scrapeLoop_full)
  with False show ?thesis by (rule full)
next
  case lt: True
  obtain r c1 where ex0: "e c page = (r, c1)" by (cases "e c page")
  note rec = recording_eq [where e = e and c = c and made = made, OF ex0]
  show ?thesis
  proof (cases r)
    case (Inl err)
    with rec have "recording e (c, made) page = (Inl err, (c1, made @ [(page, Inl err)]))"
      by simp
    from scrapeLoop_error [where e = "recording e", OF lt this] run
    have "res = Inl (ErrorScrapingPage page err)" "c' = c1" "calls = made @ [(page, Inl err)]"
      by auto
    with lt ex0 Inl show ?thesis by (auto intro: error)
  next
    case (Inr pps)
    with rec have ex: "recording e (c, made) page = (Inr pps, (c1, made @ [(page, Inr pps)]))"
      by simp
    show ?thesis
    proof (cases "pps = []")
      case True
      from scrapeLoop_empty [where e = "recording e", OF lt ex [unfolded True]] run
      have "res = Inr products" "c' = c1" "calls = made @ [(page, Inr [])]"
        by auto
      with lt ex0 Inr True show ?thesis by (auto intro: empty)
    next
      case ne: False
      obtain products' seen' n where
        add: "addProductsWithoutDuplicates products pps seen m = (products', seen', n)"
        by (cases "addProductsWithoutDuplicates products pps seen m")
      show ?thesis
      proof (cases "n = 0 \<and> products' \<noteq> []")
        case True
        then have n: "n = 0" and pne: "products' \<noteq> []" by auto
        from addPWD_none_added [OF add [unfolded n]]
        have same: "products' = products" "seen' = seen" by auto
        from scrapeLoop_no_new [where e = "recording e", OF lt ex ne add [unfolded n] pne] run
        have "res = Inr products'" "c' = c1" "calls = made @ [(page, Inr pps)]"
          by auto
        with lt ex0 Inr ne add n pne same show ?thesis by (auto intro: no_new)
      next
        case False
        from scrapeLoop_next [where e = "recording e", OF lt ex ne add False] run
        have "scrapeLoop (recording e) m products' (page + 1) seen'
                (c1, made @ [(page, Inr pps)]) = Some (res, c', calls)" by simp
        with lt ex0 Inr ne add False show ?thesis by (auto intro: further)
      qed
    qed
  qed
qed

lemma recorded_extends:
  assumes "seen = URL ` set products"
  shows "scrapeLoop (recording e) m products page seen (c, made) = Some (res, c', calls)
    \<Longrightarrow> \<exists>new. calls = made @ new"
  using assms
proof (induction products page seen "(c, made)" arbitrary: c made
    rule: scrapeLoop_induct [where e = "recording e" and m = m])
  case (iteration products page seen)
  from iteration.prems show ?case
  proof (cases rule: recorded_cases)
    case (further pps c1 products' seen' n)
    from recording_eq [where e = e and c = c and made = made, OF further(2)]
    have "recording e (c, made) page = (Inr pps, c1, made @ [(page, Inr pps)])" .
    from iteration.hyps(2) [OF further(1) this further(3,4,5) further(6)]
    show ?thesis by auto
  qed auto
qed

lemma recorded_induct [consumes 2, case_names full error empty no_new further]:
  assumes run: "scrapeLoop (recording e) m products page seen (c, made) = Some (res, c', made @ new)"
    and inv: "seen = URL ` set products"
    and full: "\<And>products page seen.
      seen = URL ` set products \<Longrightarrow> \<not> int (length products) < m \<Longrightarrow>
      P products page seen [] (Inr products)"
    and error: "\<And>products page seen c c1 err.
      seen = URL ` set products \<Longrightarrow> int (length products) < m \<Longrightarrow> e c page = (Inl err, c1) \<Longrightarrow>
      P products page seen [(page, Inl err)] (Inl (ErrorScrapingPage page err))"
    and empty: "\<And>products page seen c c1.
      seen = URL ` set products \<Longrightarrow> int (length products) < m \<Longrightarrow> e c page = (Inr [], c1) \<Longrightarrow>
      P products page seen [(page, Inr [])] (Inr products)"
    and no_new: "\<And>products page seen c c1 pps.
      seen = URL ` set products \<Longrightarrow> int (length products) < m \<Longrightarrow> e c page = (Inr pps, c1) \<Longrightarrow>
      pps \<noteq> [] \<Longrightarrow> addProductsWithoutDuplicates products pps seen m = (products, seen, 0) \<Longrightarrow>
      products \<noteq> [] \<Longrightarrow> P products page seen [(page, Inr pps)] (Inr products)"
    and further: "\<And>products page seen c c1 pps products' seen' n made new res.
      seen = URL ` set products \<Longrightarrow> int (length products) < m \<Longrightarrow> e c page = (Inr pps, c1) \<Longrightarrow>
      pps \<noteq> [] \<Longrightarrow> addProductsWithoutDuplicates products pps seen m = (products', seen', n) \<Longrightarrow>
      0 < n \<Longrightarrow> seen' = URL ` set products' \<Longrightarrow>
      scrapeLoop (recording e) m products' (page + 1) seen' (c1, made) = Some (res, c', made @ new) \<Longrightarrow>
      P products' (page + 1) seen' new res \<Longrightarrow>
      P products page seen ((page, Inr pps) # new) res"
  shows "P products page seen new res"
  using inv run
proof (induction products page seen "(c, made)" arbitrary: c made new
    rule: scrapeLoop_induct [where e = "recording e" and m = m])
  case (iteration products page seen)
  note inv = iteration.hyps(1)
  from iteration.prems show ?case
  proof (cases rule: recorded_cases)
    case full
    with inv show ?thesis by (auto intro: assms(3))
  next
    case (error err)
    with inv show ?thesis by (auto intro: assms(4))
  next
    case empty
    with inv show ?thesis by (auto intro: assms(5))
  next
    case (no_new pps)
    with inv show ?thesis by (auto intro: assms(6))
  next
    case (further pps c1 products' seen' n)
    from recording_eq [where e = e and c = c and made = made, OF further(2)]
    have rec: "recording e (c, made) page = (Inr pps, c1, made @ [(page, Inr pps)])" .
    from recorded_extends [OF _ further(6)] next_grows(3) [OF inv further(1,3,4,5)]
    obtain new' where n': "made @ new = (made @ [(page, Inr pps)]) @ new'" by blast
    then have new: "new = (page, Inr pps) # new'" by simp
    have sub: "scrapeLoop (recording e) m products' (page + 1) seen'
        (c1, made @ [(page, Inr pps)]) = Some (res, c', (made @ [(page, Inr pps)]) @ new')"
      using further(6) n' by simp
    have IH: "P products' (page + 1) seen' new' res"
      by (rule iteration.hyps(2) [OF further(1) rec further(3,4,5) sub])
    show ?thesis
      unfolding new
      by (rule assms(7) [OF inv further(1,2,3,4) addPWD_added_pos [OF inv further(1,3,4,5)]
            next_grows(3) [OF inv further(1,3,4,5)] sub IH])
  qed
qed

section \<open>What a recorded run looks like\<close>

lemma addLoop_counter:
  "addLoop products ps seen m a =
     (case addLoop products ps seen m 0 of (p, s, k) \<Rightarrow> (p, s, a + k))"
proof (induction ps arbitrary: products seen a)
  case Nil
  show ?case by simp
next
  case (Cons p ps)
  show ?case
    using Cons.IH [of "products @ [p]" "insert (URL p) seen" "a + 1"]
      Cons.IH [of "products @ [p]" "insert (URL p) seen" 1]
      Cons.IH [of products seen a]
    by (auto split: prod.splits)
qed

lemma addPWD_append:
  assumes "addProductsWithoutDuplicates products xs seen m = (products', seen', n)"
  shows "fst (addProductsWithoutDuplicates products (xs @ ys) seen m) =
     fst (addProductsWithoutDuplicates products' ys seen' m)"
proof -
  have "fst (addLoop products' ys seen' m n) = fst (addLoop products' ys seen' m 0)"
    by (subst addLoop_counter) (simp split: prod.splits)
  with assms show ?thesis
    by (simp add: addProductsWithoutDuplicates_def addLoop_append)
qed

lemma addPWD_length:
  "addProductsWithoutDuplicates products pps seen m = (products', seen', n) \<Longrightarrow>
   int (length products') = int (length products) + n"
  unfolding addProductsWithoutDuplicates_def by (auto dest!: addLoop_appends)

lemma addPWD_Nil [simp]: "addProductsWithoutDuplicates products [] seen m = (products, seen, 0)"
  by (simp add: addProductsWithoutDuplicates_def)

lemma singleton_split:
  "[x] = pre @ y # post \<longleftrightarrow> pre = [] \<and> post = [] \<and> x = y"
  by (cases pre) auto

lemma recorded_pages:
  assumes "scrapeLoop (recording e) m products page seen (c, made) = Some (res, c', made @ new)"
    and "seen = URL ` set products"
  shows "map fst new = [page..page + int (length new) - 1] \<and>
    int (length new) \<le> max 0 (m - int (length products))"
  using assms
proof (induction rule: recorded_induct)
  case (further products page seen c c1 pps products' seen' n made new res)
  from addPWD_length [OF further(5)] further(6)
  have "int (length products) < int (length products')" by simp
  with further show ?case
    by (auto simp: upto_rec1 [of page] add.commute add.left_commute)
qed (auto simp: upto_rec1)

lemma recorded_error:
  assumes "scrapeLoop (recording e) m products page seen (c, made) = Some (res, c', made @ new)"
    and "seen = URL ` set products"
  shows "(pg, Inl err) \<in> set new \<longrightarrow> res = Inl (ErrorScrapingPage pg err)"
  using assms by (induction rule: recorded_induct) auto

lemma recorded_responses:
  assumes "scrapeLoop (recording e) m products page seen (c, made) = Some (res, c', made @ new)"
    and "seen = URL ` set products"
  shows "(pg, r) \<in> set new \<longrightarrow> (\<exists>c c1. e c pg = (r, c1))"
  using assms by (induction rule: recorded_induct) auto

lemma recorded_catalog:
  assumes "scrapeLoop (recording e) m products page seen (c, made) = Some (res, c', made @ new)"
    and "seen = URL ` set products"
  shows "res = Inr catalog \<longrightarrow>
    catalog = fst (addProductsWithoutDuplicates products (delivered new) seen m)"
  using assms
proof (induction rule: recorded_induct)
  case (further products page seen c c1 pps products' seen' n made new res)
  then show ?case by (simp add: addPWD_append)
qed auto

lemma recorded_full:
  assumes "scrapeLoop (recording e) m products page seen (c, made) = Some (res, c', made @ new)"
    and "\<not> int (length products) < m"
  shows "new = []"
  using assms by (simp add: scrapeLoop_full)

lemma recorded_stop:
  assumes "scrapeLoop (recording e) m products page seen (c, made) = Some (res, c', made @ new)"
    and "seen = URL ` set products"
  shows "\<forall>pre pg ps post. new = pre @ (pg, Inr ps) # post \<and>
      URL ` set ps \<subseteq> seen \<union> URL ` set (delivered pre) \<longrightarrow>
      post = [] \<and>
      res = Inr (fst (addProductsWithoutDuplicates products (delivered pre) seen m)) \<and>
      int (length (fst (addProductsWithoutDuplicates products (delivered pre) seen m))) < m"
  using assms
proof (induction rule: recorded_induct)
  case (further products page seen c c1 pps products' seen' n made new res)
  show ?case
  proof (intro allI impI, elim conjE)
    fix pre pg ps post
    assume split: "(page, Inr pps) # new = pre @ (pg, Inr ps) # post"
      and known: "URL ` set ps \<subseteq> seen \<union> URL ` set (delivered pre)"
    let ?goal = "post = [] \<and>
      res = Inr (fst (addProductsWithoutDuplicates products (delivered pre) seen m)) \<and>
      int (length (fst (addProductsWithoutDuplicates products (delivered pre) seen m))) < m"
    show ?goal
    proof (cases pre)
      case Nil
      with split known have "URL ` set pps \<subseteq> seen" by simp
      then have "addProductsWithoutDuplicates products pps seen m = (products, seen, 0)"
        by (simp add: addProductsWithoutDuplicates_def addLoop_all_seen)
      with further(5,6) show ?thesis by simp
    next
      case (Cons first pre')
      with split have first: "first = (page, Inr pps)" and new: "new = pre' @ (pg, Inr ps) # post"
        by simp_all
      have lt': "int (length products') < m"
      proof (rule ccontr)
        assume "\<not> int (length products') < m"
        from recorded_full [OF further(8) this] new show False by simp
      qed
      from further(5) have "seen' = seen \<union> URL ` set pps"
        unfolding addProductsWithoutDuplicates_def by (rule addLoop_not_full) (rule lt')
      with known Cons first have "URL ` set ps \<subseteq> seen' \<union> URL ` set (delivered pre')"
        by auto
      with further.IH new have
        "post = [] \<and>
         res = Inr (fst (addProductsWithoutDuplicates products' (delivered pre') seen' m)) \<and>
         int (length (fst (addProductsWithoutDuplicates products' (delivered pre') seen' m))) < m"
        by blast
      with Cons first show ?thesis
        by (simp add: addPWD_append [OF further(5)])
    qed
  qed
qed (auto simp: singleton_split)

lemma keep_extends:
  "\<exists>more. foldl (\<lambda>kept p. if URL p \<in> URL ` set kept then kept else kept @ [p]) acc xs = acc @ more"
  by (induction xs arbitrary: acc) (auto, metis append.assoc)

lemma addLoop_firstSeen:
  "seen = URL ` set products \<Longrightarrow> int (length products) \<le> m \<Longrightarrow>
   fst (addLoop products xs seen m a) =
     take (nat m) (foldl (\<lambda>kept p. if URL p \<in> URL ` set kept then kept else kept @ [p]) products xs)"
proof (induction xs arbitrary: products seen a)
  case Nil
  then show ?case by simp
next
  case (Cons x xs)
  let ?keep = "\<lambda>kept p. if URL p \<in> URL ` set kept then kept else kept @ [p]"
  show ?case
  proof (cases "int (length products) \<ge> m")
    case True
    with Cons.prems have m: "nat m = length products" by simp
    obtain more where "foldl ?keep products (x # xs) = products @ more"
      using keep_extends [of products "x # xs"] by blast
    with True m show ?thesis by simp
  next
    case False
    show ?thesis
    proof (cases "URL x \<in> seen")
      case True
      with False Cons.prems Cons.IH [of seen products a] show ?thesis by simp
    next
      case new: False
      have "fst (addLoop (products @ [x]) xs (insert (URL x) seen) m (a + 1)) =
        take (nat m) (foldl ?keep (products @ [x]) xs)"
        by (rule Cons.IH) (use Cons.prems False in auto)
      with False new Cons.prems show ?thesis by simp
    qed
  qed
qed

lemma addPWD_firstSeen:
  "fst (addProductsWithoutDuplicates [] xs {} m) = take (nat m) (firstSeen xs)"
proof (cases "0 \<le> m")
  case True
  then show ?thesis
    by (simp add: addProductsWithoutDuplicates_def firstSeen_def addLoop_firstSeen)
next
  case False
  then show ?thesis
    by (simp add: addProductsWithoutDuplicates_def addLoop_full)
qed

lemma recorded_plain:
  assumes "seen = URL ` set products"
  shows "scrapeLoop (recording e) m products page seen (c, made) = Some (res, c', calls) \<Longrightarrow>
    scrapeLoop e m products page seen c = Some (res, c')"
  using assms
proof (induction products page seen "(c, made)" arbitrary: c made
    rule: scrapeLoop_induct [where e = "recording e" and m = m])
  case (iteration products page seen)
  from iteration.prems show ?case
  proof (cases rule: recorded_cases)
    case full
    then show ?thesis by (simp add: scrapeLoop_full)
  next
    case (error err)
    then show ?thesis by (simp add: scrapeLoop_error)
  next
    case empty
    then show ?thesis by (simp add: scrapeLoop_empty)
  next
    case (no_new pps)
    then show ?thesis by (simp add: scrapeLoop_no_new [where e = e and ctx = c])
  next
    case (further pps c1 products' seen' n)
    from recording_eq [where e = e and c = c and made = made, OF further(2)]
    have "recording e (c, made) page = (Inr pps, c1, made @ [(page, Inr pps)])" .
    from iteration.hyps(2) [OF further(1) this further(3,4,5,6)]
    have "scrapeLoop e m products' (page + 1) seen' c1 = Some (res, c')" .
    with scrapeLoop_next [where e = e and ctx = c, OF further(1,2,3,4,5)] show ?thesis by simp
  qed
qed

lemma same_responses:
  assumes inv: "seen = URL ` set products"
    and r1: "\<And>c pg. fst (e1 c pg) = responses pg"
    and r2: "\<And>c pg. fst (e2 c pg) = responses pg"
  shows "map_option fst (scrapeLoop e1 m products page seen c1) =
         map_option fst (scrapeLoop e2 m products page seen c2)"
  using inv
proof (induction products page seen c1 arbitrary: c2
    rule: scrapeLoop_induct [where e = e1 and m = m])
  case (iteration products page seen c1)
  show ?case
  proof (cases "int (length products) < m")
    case False
    then show ?thesis by (simp add: scrapeLoop_full)
  next
    case lt: True
    obtain d1 where x1: "e1 c1 page = (responses page, d1)"
      using r1 [of c1 page] by (cases "e1 c1 page") auto
    obtain d2 where x2: "e2 c2 page = (responses page, d2)"
      using r2 [of c2 page] by (cases "e2 c2 page") auto
    show ?thesis
    proof (cases "responses page")
      case (Inl err)
      with lt x1 x2 show ?thesis by (simp add: scrapeLoop_error)
    next
      case (Inr pps)
      show ?thesis
      proof (cases "pps = []")
        case True
        with Inr lt x1 x2 show ?thesis by (simp add: scrapeLoop_empty)
      next
        case ne: False
        obtain products' seen' n where
          add: "addProductsWithoutDuplicates products pps seen m = (products', seen', n)"
          by (cases "addProductsWithoutDuplicates products pps seen m")
        show ?thesis
        proof (cases "n = 0 \<and> products' \<noteq> []")
          case True
          then have n: "n = 0" and pne: "products' \<noteq> []" by auto
          from scrapeLoop_no_new [where e = e1 and ctx = c1, OF lt x1 [unfolded Inr] ne add [unfolded n] pne]
            scrapeLoop_no_new [where e = e2 and ctx = c2, OF lt x2 [unfolded Inr] ne add [unfolded n] pne]
          show ?thesis by simp
        next
          case False
          from scrapeLoop_next [where e = e1 and ctx = c1, OF lt x1 [unfolded Inr] ne add False]
            scrapeLoop_next [where e = e2 and ctx = c2, OF lt x2 [unfolded Inr] ne add False]
            iteration.IH [OF lt x1 [unfolded Inr] ne add False, of d2]
          show ?thesis by simp
        qed
      qed
    qed
  qed
qed

lemma firstSeen_subseq_aux:
  "\<exists>more. foldl (\<lambda>kept p. if URL p \<in> URL ` set kept then kept else kept @ [p]) acc xs = acc @ more
     \<and> subseq more xs"
proof (induction xs arbitrary: acc)
  case Nil
  show ?case by simp
next
  case (Cons x xs)
  let ?keep = "\<lambda>kept p. if URL p \<in> URL ` set kept then kept else kept @ [p]"
  show ?case
  proof (cases "URL x \<in> URL ` set acc")
    case True
    then have step: "foldl ?keep acc (x # xs) = foldl ?keep acc xs" by simp
    from Cons.IH [of acc] obtain more where
      m: "foldl ?keep acc xs = acc @ more" "subseq more xs" by blast
    from m(2) have "subseq more (x # xs)" by (rule list_emb_Cons)
    with m(1) step show ?thesis by metis
  next
    case False
    then have step: "foldl ?keep acc (x # xs) = foldl ?keep (acc @ [x]) xs" by simp
    from Cons.IH [of "acc @ [x]"] obtain more where
      m: "foldl ?keep (acc @ [x]) xs = (acc @ [x]) @ more" "subseq more xs" by blast
    from m(2) have "subseq (x # more) (x # xs)" by simp
    moreover from m(1) step have "foldl ?keep acc (x # xs) = acc @ (x # more)" by simp
    ultimately show ?thesis by metis
  qed
qed

lemma firstSeen_subseq: "subseq (firstSeen xs) xs"
proof -
  from firstSeen_subseq_aux [of "[]" xs] obtain more where
    "foldl (\<lambda>kept p. if URL p \<in> URL ` set kept then kept else kept @ [p]) [] xs = [] @ more"
    "subseq more xs" by blast
  then show ?thesis by (simp add: firstSeen_def)
qed

lemma take_subseq: "subseq (take n xs) xs"
  by auto

section \<open>Runs of scrapeProducts\<close>

lemma recorded_run_returns:
  "\<exists>res ctx' calls. scrapeProducts (recording Extract) (ctx, []) maxProducts = Some (res, ctx', calls)"
proof -
  have "\<exists>r. scrapeLoop (recording Extract) maxProducts [] 1 {} (ctx, []) = Some r"
    by (rule scrapeLoop_returns) simp
  then show ?thesis
    by (auto simp: scrapeProducts_def)
qed

lemma recorded_run_loop:
  "scrapeProducts (recording Extract) (ctx, []) maxProducts = Some (res, ctx', calls) \<Longrightarrow>
   scrapeLoop (recording Extract) maxProducts [] 1 (URL ` set []) (ctx, []) = Some (res, ctx', [] @ calls)"
  by (simp add: scrapeProducts_def)

lemma plain_run_recorded:
  assumes "scrapeProducts Extract ctx maxProducts = Some (res, ctx')"
  shows "\<exists>calls. scrapeProducts (recording Extract) (ctx, []) maxProducts = Some (res, ctx', calls)"
proof -
  from recorded_run_returns [of Extract ctx maxProducts] obtain res2 ctx2 calls where
    rec: "scrapeProducts (recording Extract) (ctx, []) maxProducts = Some (res2, ctx2, calls)"
    by blast
  then have "scrapeLoop (recording Extract) maxProducts [] 1 (URL ` set []) (ctx, [])
      = Some (res2, ctx2, calls)"
    by (simp add: scrapeProducts_def)
  from recorded_plain [OF _ this]
  have "scrapeLoop Extract maxProducts [] 1 (URL ` set []) ctx = Some (res2, ctx2)" by simp
  then have "scrapeProducts Extract ctx maxProducts = Some (res2, ctx2)"
    by (simp add: scrapeProducts_def)
  with assms rec show ?thesis by simp
qed

lemma run_catalog:
  assumes "scrapeProducts (recording Extract) (ctx, []) maxProducts = Some (Inr catalog, ctx', calls)"
  shows "catalog = fst (addProductsWithoutDuplicates [] (delivered calls) {} maxProducts)"
  using recorded_catalog [OF recorded_run_loop [OF assms]] by simp

lemma delivered_member:
  "p \<in> set (delivered calls) \<Longrightarrow> \<exists>page ps. (page, Inr ps) \<in> set calls \<and> p \<in> set ps"
  by (induction calls rule: delivered.induct) auto

lemma run_pages:
  assumes "scrapeProducts (recording Extract) (ctx, []) maxProducts = Some (res, ctx', calls)"
  shows "map fst calls = [1..int (length calls)]" and "int (length calls) \<le> max 0 maxProducts"
  using recorded_pages [OF recorded_run_loop [OF assms]] by simp_all

lemma extractJSContent_url: "p \<in> set (extractJSContent mapped) \<Longrightarrow> URL p \<noteq> []"
  by (simp add: extractJSContent_def)

lemma extractProductsFromPage_url:
  "extractProductsFromPage chromedpRun c page = (Inr ps, c1) \<Longrightarrow> p \<in> set ps \<Longrightarrow> URL p \<noteq> []"
  by (auto simp: extractProductsFromPage_def Let_def extractJSContent_url
      split: prod.splits sum.splits)

lemma run_catalog_delivered:
  assumes "scrapeProducts (recording Extract) (ctx, []) maxProducts = Some (Inr catalog, ctx', calls)"
  shows "set catalog \<subseteq> set (delivered calls)"
  using run_catalog [OF assms] unfolding addProductsWithoutDuplicates_def
  by (cases "addLoop [] (delivered calls) {} maxProducts 0") (auto dest!: addLoop_appends)

lemma run_responses:
  assumes "scrapeProducts (recording Extract) (ctx, []) maxProducts = Some (res, ctx', calls)"
    and "(page, r) \<in> set calls"
  shows "\<exists>c c1. Extract c page = (r, c1)"
  using recorded_responses [OF recorded_run_loop [OF assms(1)]] assms(2) by simp

lemma run_stop:
  assumes run: "scrapeProducts (recording Extract) (ctx, []) maxProducts = Some (res, ctx', calls)"
    and split: "calls = pre @ (page, Inr pageProducts) # post"
    and known: "URL ` set pageProducts \<subseteq> URL ` set (delivered pre)"
  shows "post = []" and "res = Inr (firstSeen (delivered pre))"
proof -
  let ?acc = "fst (addProductsWithoutDuplicates [] (delivered pre) {} maxProducts)"
  from recorded_stop [OF recorded_run_loop [OF run] refl, rule_format, of pre page pageProducts post]
    split known
  have stop: "post = []" "res = Inr ?acc" "int (length ?acc) < maxProducts"
    by simp_all
  from stop(3) have "length (take (nat maxProducts) (firstSeen (delivered pre))) < nat maxProducts"
    by (simp add: addPWD_firstSeen)
  then have "take (nat maxProducts) (firstSeen (delivered pre)) = firstSeen (delivered pre)"
    by simp
  with stop show "post = []" and "res = Inr (firstSeen (delivered pre))"
    by (simp_all add: addPWD_firstSeen)
qed

lemma plain_run_returns:
  "\<exists>res ctx'. scrapeProducts Extract ctx maxProducts = Some (res, ctx')"
proof -
  have "\<exists>r. scrapeLoop Extract maxProducts [] 1 {} ctx = Some r"
    by (rule scrapeLoop_returns) simp
  then show ?thesis
    by (auto simp: scrapeProducts_def)
qed

section \<open>Failure propagation\<close>

text \<open>
  Claim C1. Every run returns, and when some call to the extractor answered with an error,
  the run returns an error and no catalog: the result is \<open>Inl\<close>, the \<^verbatim>\<open>(nil, err)\<close> of the
  Go code, never the products of the pages before, and the error carries the number of
  the page whose call failed, around the error of that call. The run is observed through
  the recording extractor, starting from an empty list of calls.
\<close>

theorem scrapeProducts_failure_propagation:
  "\<exists>res ctx' calls.
     scrapeProducts (recording Extract) (ctx, []) maxProducts = Some (res, ctx', calls) \<and>
     (\<forall>page err. (page, Inl err) \<in> set calls \<longrightarrow> res = Inl (ErrorScrapingPage page err))"
proof -
  from recorded_run_returns [of Extract ctx maxProducts] obtain res ctx' calls where
    run: "scrapeProducts (recording Extract) (ctx, []) maxProducts = Some (res, ctx', calls)"
    by (elim exE)
  from recorded_error [OF recorded_run_loop [OF run]]
  have "\<forall>page err. (page, Inl err) \<in> set calls \<longrightarrow> res = Inl (ErrorScrapingPage page err)"
    by simp
  with run show ?thesis by (intro exI conjI)
qed

text \<open>
  Scenario D: page 1 holds two products and the call for page 2 fails. The run returns the
  error of page 2 and none of the two products.
\<close>

theorem scrapeProducts_failure_propagation_witness:
  "\<exists>ctx' calls.
     scrapeProducts
       (recording (scripted [Inr [item ''/products/a'' ''A'', item ''/products/b'' ''B''],
                             Inl ''page load error''] :: (string, unit) extractor))
       ((), []) 100
     = Some (Inl (ErrorScrapingPage 2 ''page load error''), ctx', calls)"
proof -
  let ?e = "scripted [Inr [item ''/products/a'' ''A'', item ''/products/b'' ''B''],
                      Inl ''page load error''] :: (string, unit) extractor"
  let ?calls = "[(1, Inr [item ''/products/a'' ''A'', item ''/products/b'' ''B'']),
         (2, Inl ''page load error'')] :: string calls"
  have eval: "scrapeProducts (recording ?e) ((), []) 100 =
      Some (Inl (ErrorScrapingPage 2 ''page load error''), (), ?calls)"
    by code_simp
  from scrapeProducts_failure_propagation [of ?e "()" 100] obtain res ctx' calls where
    run: "scrapeProducts (recording ?e) ((), []) 100 = Some (res, ctx', calls)" and
    err: "\<forall>page err. (page, Inl err) \<in> set calls \<longrightarrow> res = Inl (ErrorScrapingPage page err)"
    by (elim exE conjE)
  from run have calls: "calls = ?calls" unfolding eval by simp
  have "(2, Inl ''page load error'') \<in> set ?calls" by simp
  with err [rule_format, of 2 "''page load error''"] calls
  have "res = Inl (ErrorScrapingPage 2 ''page load error'')" by simp
  with run show ?thesis by (intro exI) simp
qed

section \<open>Uniqueness\<close>

text \<open>
  Claim C2. In the catalog a run returns, no two records have the same URL, wherever the
  duplicates came from: two pages or one and the same page.
\<close>

theorem scrapeProducts_unique_urls:
  "scrapeProducts Extract ctx maxProducts = Some (Inr catalog, ctx') \<Longrightarrow>
   distinct (map URL catalog)"
proof -
  assume "scrapeProducts Extract ctx maxProducts = Some (Inr catalog, ctx')"
  from plain_run_recorded [OF this] obtain calls where
    "scrapeProducts (recording Extract) (ctx, []) maxProducts = Some (Inr catalog, ctx', calls)"
    by (rule exE)
  from run_catalog [OF this] show ?thesis
    unfolding addProductsWithoutDuplicates_def
    by (cases "addLoop [] (delivered calls) {} maxProducts 0") (auto dest!: addLoop_appends)
qed

text \<open>
  Scenario B: page 1 holds two records with the URL \<^verbatim>\<open>/products/a\<close>. The catalog has one
  record for that URL, the first of the two.
\<close>

theorem scrapeProducts_unique_urls_witness:
  "scrapeProducts
     (scripted [Inr [item ''/products/a'' ''first'', item ''/products/a'' ''second'']]
        :: (string, unit) extractor) () 100
     = Some (Inr [item ''/products/a'' ''first''], ()) \<and>
   distinct (map URL [item ''/products/a'' ''first''])"
proof -
  have eval: "scrapeProducts
     (scripted [Inr [item ''/products/a'' ''first'', item ''/products/a'' ''second'']]
        :: (string, unit) extractor) () 100
     = Some (Inr [item ''/products/a'' ''first''], ())"
    by code_simp
  from eval scrapeProducts_unique_urls [OF eval] show ?thesis by (rule conjI)
qed

section \<open>Boundedness\<close>

text \<open>
  Claim C3. For \<open>maxProducts \<ge> 0\<close> the catalog a run returns has at most \<open>maxProducts\<close>
  records. When the budget fills in the middle of a page the rest of the page is left
  out: with a budget of 5 and two pages of three records each, six URLs in all, the
  catalog is the three records of page 1 and then the first two of page 2, and the run
  ends there.
\<close>

theorem scrapeProducts_bounded:
  "(0 \<le> maxProducts \<and> scrapeProducts Extract ctx maxProducts = Some (Inr catalog, ctx')
      \<longrightarrow> int (length catalog) \<le> maxProducts) \<and>
   (distinct (map URL [p1, p2, p3, p4, p5, p6]) \<and>
    Extract ctx 1 = (Inr [p1, p2, p3], ctx1) \<and> Extract ctx1 2 = (Inr [p4, p5, p6], ctx2)
      \<longrightarrow> scrapeProducts Extract ctx 5 = Some (Inr [p1, p2, p3, p4, p5], ctx2))"
proof (intro conjI impI)
  assume a: "0 \<le> maxProducts \<and> scrapeProducts Extract ctx maxProducts = Some (Inr catalog, ctx')"
  from plain_run_recorded [OF a [THEN conjunct2]] obtain calls where
    "scrapeProducts (recording Extract) (ctx, []) maxProducts = Some (Inr catalog, ctx', calls)"
    by (rule exE)
  from run_catalog [OF this] a show "int (length catalog) \<le> maxProducts"
    unfolding addProductsWithoutDuplicates_def
    by (cases "addLoop [] (delivered calls) {} maxProducts 0") (auto dest: addLoop_bound)
next
  assume a: "distinct (map URL [p1, p2, p3, p4, p5, p6]) \<and>
    Extract ctx 1 = (Inr [p1, p2, p3], ctx1) \<and> Extract ctx1 2 = (Inr [p4, p5, p6], ctx2)"
  have add1: "addProductsWithoutDuplicates [] [p1, p2, p3] {} 5
      = ([p1, p2, p3], {URL p1, URL p2, URL p3}, 3)"
    using a by (auto simp: addProductsWithoutDuplicates_def)
  have add2: "addProductsWithoutDuplicates [p1, p2, p3] [p4, p5, p6] {URL p1, URL p2, URL p3} 5
      = ([p1, p2, p3, p4, p5], {URL p1, URL p2, URL p3, URL p4, URL p5}, 2)"
    using a by (auto simp: addProductsWithoutDuplicates_def)
  have "scrapeProducts Extract ctx 5 =
      scrapeLoop Extract 5 [p1, p2, p3] (1 + 1) {URL p1, URL p2, URL p3} ctx1"
    unfolding scrapeProducts_def
    by (rule scrapeLoop_next [where e = Extract and ctx = ctx, OF _ _ _ add1]) (use a in auto)
  also have "\<dots> = scrapeLoop Extract 5 [p1, p2, p3, p4, p5] (1 + 1 + 1)
      {URL p1, URL p2, URL p3, URL p4, URL p5} ctx2"
    by (rule scrapeLoop_next [where e = Extract and ctx = ctx1, OF _ _ _ add2]) (use a in auto)
  also have "\<dots> = Some (Inr [p1, p2, p3, p4, p5], ctx2)"
    by (rule scrapeLoop_full) simp
  finally show "scrapeProducts Extract ctx 5 = Some (Inr [p1, p2, p3, p4, p5], ctx2)" .
qed

text \<open>Scenario A on a scripted storefront: five records, in the order a, b, c, d, e.\<close>

theorem scrapeProducts_bounded_witness:
  "scrapeProducts
     (scripted [Inr [item ''/products/a'' ''A'', item ''/products/b'' ''B'', item ''/products/c'' ''C''],
                Inr [item ''/products/d'' ''D'', item ''/products/e'' ''E'', item ''/products/f'' ''F'']]
        :: (string, unit) extractor) () 5
     = Some (Inr [item ''/products/a'' ''A'', item ''/products/b'' ''B'', item ''/products/c'' ''C'',
                  item ''/products/d'' ''D'', item ''/products/e'' ''E''], ()) \<and>
   int (length [item ''/products/a'' ''A'', item ''/products/b'' ''B'', item ''/products/c'' ''C'',
                item ''/products/d'' ''D'', item ''/products/e'' ''E'']) \<le> 5"
proof -
  let ?e = "scripted [Inr [item ''/products/a'' ''A'', item ''/products/b'' ''B'', item ''/products/c'' ''C''],
                Inr [item ''/products/d'' ''D'', item ''/products/e'' ''E'', item ''/products/f'' ''F'']]
        :: (string, unit) extractor"
  let ?five = "[item ''/products/a'' ''A'', item ''/products/b'' ''B'', item ''/products/c'' ''C'',
                  item ''/products/d'' ''D'', item ''/products/e'' ''E'']"
  note both = scrapeProducts_bounded [of 5 ?e "()" ?five "()"
      "item ''/products/a'' ''A''" "item ''/products/b'' ''B''" "item ''/products/c'' ''C''"
      "item ''/products/d'' ''D''" "item ''/products/e'' ''E''" "item ''/products/f'' ''F''" "()" "()"]
  have pages: "?e () 1 = (Inr [item ''/products/a'' ''A'', item ''/products/b'' ''B'', item ''/products/c'' ''C''], ())"
    "?e () 2 = (Inr [item ''/products/d'' ''D'', item ''/products/e'' ''E'', item ''/products/f'' ''F''], ())"
    by (simp_all add: scripted_def)
  have urls: "distinct (map URL [item ''/products/a'' ''A'', item ''/products/b'' ''B'',
      item ''/products/c'' ''C'', item ''/products/d'' ''D'', item ''/products/e'' ''E'',
      item ''/products/f'' ''F''])"
    by (simp add: item_def)
  have run: "scrapeProducts ?e () 5 = Some (Inr ?five, ())"
    by (rule both [THEN conjunct2, THEN mp]) (intro conjI urls pages)
  have "int (length ?five) \<le> 5"
    by (rule both [THEN conjunct1, THEN mp]) (intro conjI run, simp)
  with run show ?thesis by (rule conjI)
qed

section \<open>Termination\<close>

text \<open>
  Claim C4. Whatever the extractor answers (pages that repeat earlier content for ever,
  pages that run dry, errors) and whatever \<open>maxProducts\<close> is, the pagination loop
  terminates: the run returns, after at most \<open>maxProducts\<close> calls to the extractor. The
  reason is the second part: in a state where \<open>seen\<close> holds the URLs of \<open>products\<close>, as in
  every state the loop reaches, an iteration that goes on to the next page (the page was
  delivered and not empty, and the no-new-records test did not stop the loop) has
  appended at least one record, and the slice stays within the budget.
\<close>

theorem scrapeProducts_terminates:
  "(\<exists>res ctx' calls.
      scrapeProducts (recording Extract) (ctx, []) maxProducts = Some (res, ctx', calls) \<and>
      int (length calls) \<le> max 0 maxProducts) \<and>
   (seen = URL ` set products \<and> int (length products) < maxProducts \<and> pageProducts \<noteq> [] \<and>
    addProductsWithoutDuplicates products pageProducts seen maxProducts
      = (products', seen', productsAdded) \<and>
    \<not> (productsAdded = 0 \<and> length products' > 0)
    \<longrightarrow> length products < length products' \<and> int (length products') \<le> maxProducts \<and>
        seen' = URL ` set products')"
proof (intro conjI impI)
  from recorded_run_returns [of Extract ctx maxProducts] obtain res ctx' calls where
    run: "scrapeProducts (recording Extract) (ctx, []) maxProducts = Some (res, ctx', calls)"
    by (elim exE)
  from run run_pages(2) [OF run]
  show "\<exists>res ctx' calls.
      scrapeProducts (recording Extract) (ctx, []) maxProducts = Some (res, ctx', calls) \<and>
      int (length calls) \<le> max 0 maxProducts"
    by (intro exI conjI)
next
  assume a: "seen = URL ` set products \<and> int (length products) < maxProducts \<and> pageProducts \<noteq> [] \<and>
    addProductsWithoutDuplicates products pageProducts seen maxProducts
      = (products', seen', productsAdded) \<and>
    \<not> (productsAdded = 0 \<and> length products' > 0)"
  then have b: "seen = URL ` set products" "int (length products) < maxProducts" "pageProducts \<noteq> []"
    "addProductsWithoutDuplicates products pageProducts seen maxProducts
      = (products', seen', productsAdded)"
    "\<not> (productsAdded = 0 \<and> 0 < length products')"
    by blast+
  from b(5) have c: "\<not> (productsAdded = 0 \<and> products' \<noteq> [])" by simp
  from next_grows [OF b(1-4) c]
  show "length products < length products'" "int (length products') \<le> maxProducts"
    "seen' = URL ` set products'" .
qed

text \<open>
  A storefront that serves the same two products on every page: the run ends after the
  second call, with the two products.
\<close>

theorem scrapeProducts_terminates_witness:
  "(\<exists>ctx' calls.
      scrapeProducts
        (recording (repeating [item ''/products/a'' ''A'', item ''/products/b'' ''B'']
           :: (string, unit) extractor))
        ((), []) 100
      = Some (Inr [item ''/products/a'' ''A'', item ''/products/b'' ''B''], ctx', calls) \<and>
      int (length calls) \<le> max 0 100) \<and>
   length ([] :: Product list) < length [item ''/products/a'' ''A'', item ''/products/b'' ''B'']"
proof -
  let ?page = "[item ''/products/a'' ''A'', item ''/products/b'' ''B'']"
  let ?e = "repeating ?page :: (string, unit) extractor"
  have eval: "scrapeProducts (recording ?e) ((), []) 100 =
      Some (Inr ?page, (), [(1, Inr ?page), (2, Inr ?page)])"
    by code_simp
  have add: "addProductsWithoutDuplicates [] ?page {} 100 =
      (?page, {''/products/b'', ''/products/a''}, 2)"
    by code_simp
  note t = scrapeProducts_terminates [of ?e "()" 100 "{}" "[]" ?page ?page
      "{''/products/b'', ''/products/a''}" 2]
  from t [THEN conjunct1] obtain res ctx' calls where
    run: "scrapeProducts (recording ?e) ((), []) 100 = Some (res, ctx', calls)" and
    few: "int (length calls) \<le> max 0 100"
    by (elim exE conjE)
  from run have "res = Inr ?page" unfolding eval by simp
  with run few have first: "\<exists>ctx' calls.
      scrapeProducts (recording ?e) ((), []) 100 = Some (Inr ?page, ctx', calls) \<and>
      int (length calls) \<le> max 0 100"
    by (intro exI [of _ ctx'] exI [of _ calls]) simp
  have "length ([] :: Product list) < length ?page"
    by (rule t [THEN conjunct2, THEN mp, THEN conjunct1]) (simp add: add)
  with first show ?thesis by (rule conjI)
qed

section \<open>Records without URL\<close>

text \<open>
  Claim C5. In every run of \<^verbatim>\<open>scrapeProducts\<close> with \<^verbatim>\<open>extractProductsFromPage\<close>, whatever the
  browser renders, a record whose URL is the empty string never appears in the catalog,
  whatever its other fields are. The exclusion is the work of the filter that ends the
  extraction script, so it is done before the page reaches the loop.
\<close>

theorem scrapeProducts_no_empty_url:
  "scrapeProducts (extractProductsFromPage chromedpRun) ctx maxProducts = Some (Inr catalog, ctx')
   \<Longrightarrow> p \<in> set catalog \<Longrightarrow> URL p \<noteq> []"
proof -
  assume run: "scrapeProducts (extractProductsFromPage chromedpRun) ctx maxProducts
      = Some (Inr catalog, ctx')"
    and p: "p \<in> set catalog"
  from plain_run_recorded [OF run] obtain calls where
    rec: "scrapeProducts (recording (extractProductsFromPage chromedpRun)) (ctx, []) maxProducts
      = Some (Inr catalog, ctx', calls)"
    by (rule exE)
  from run_catalog_delivered [OF rec] p have "p \<in> set (delivered calls)" by (rule subsetD)
  from delivered_member [OF this] obtain page ps where
    call: "(page, Inr ps) \<in> set calls" and mem: "p \<in> set ps" by (elim exE conjE)
  from run_responses [OF rec call] obtain c c1 where
    "extractProductsFromPage chromedpRun c page = (Inr ps, c1)" by (elim exE)
  from extractProductsFromPage_url [OF this mem] show ?thesis .
qed

text \<open>
  A storefront whose first page renders a product, an element without link and a link that
  is no product, and whose second page renders one element without link: the catalog is
  the product.
\<close>

theorem scrapeProducts_no_empty_url_witness:
  "scrapeProducts
     (extractProductsFromPage
        (rendering
           [(''https://raidlight.com/collections/all?page=1'',
               Inr [item ''https://raidlight.com/products/a'' ''A'', item '''' ''no link'',
                    item ''https://raidlight.com/pages/about'' ''About'']),
            (''https://raidlight.com/collections/all?page=2'', Inr [item '''' ''no link''])]
           ''timeout'')) () 100
     = Some (Inr [item ''https://raidlight.com/products/a'' ''A''], ()) \<and>
   URL (item ''https://raidlight.com/products/a'' ''A'') \<noteq> []"
proof -
  let ?run = "scrapeProducts
     (extractProductsFromPage
        (rendering
           [(''https://raidlight.com/collections/all?page=1'',
               Inr [item ''https://raidlight.com/products/a'' ''A'', item '''' ''no link'',
                    item ''https://raidlight.com/pages/about'' ''About'']),
            (''https://raidlight.com/collections/all?page=2'', Inr [item '''' ''no link''])]
           ''timeout'')) () 100"
  have eval: "?run = Some (Inr [item ''https://raidlight.com/products/a'' ''A''], ())"
    by code_simp
  have "item ''https://raidlight.com/products/a'' ''A''
      \<in> set [item ''https://raidlight.com/products/a'' ''A'']"
    by simp
  from eval scrapeProducts_no_empty_url [OF eval this] show ?thesis by (rule conjI)
qed

text \<open>
  The loop itself never looks at the URL of a record other than to compare it with the
  URLs seen: handed a record without URL by another extractor, it admits the record like
  any other.
\<close>

lemma loop_admits_what_is_delivered:
  "scrapeProducts (scripted [Inr [item '''' ''no link'']] :: (string, unit) extractor) () 100
     = Some (Inr [item '''' ''no link''], ())"
  by code_simp

section \<open>The no-new-records stop\<close>

text \<open>
  Claim C6. Every run returns, and when the extractor delivered a page all of whose URLs
  were already delivered by the pages before it (so the page adds no record; for a page
  that is not empty this means the catalog already holds records), that call is the last
  one, no later page is asked for, and the run succeeds with the catalog accumulated from
  the pages before. The second part is the same at the place of the code: from any state
  of the loop below the budget, when \<^verbatim>\<open>addProductsWithoutDuplicates\<close> reports zero additions
  for a page that is not empty and the slice is not empty, the loop returns the slice, and
  the session is as the call for this page left it.
\<close>

theorem scrapeProducts_stops_without_new:
  "(\<exists>res ctx' calls.
      scrapeProducts (recording Extract) (ctx, []) maxProducts = Some (res, ctx', calls) \<and>
      (\<forall>pre page pageProducts post.
         calls = pre @ (page, Inr pageProducts) # post \<and>
         URL ` set pageProducts \<subseteq> URL ` set (delivered pre) \<longrightarrow>
         post = [] \<and> res = Inr (firstSeen (delivered pre)))) \<and>
   (int (length products) < maxProducts \<and> Extract c n = (Inr ps, c1) \<and> ps \<noteq> [] \<and>
    addProductsWithoutDuplicates products ps seen maxProducts = (products', seen', 0) \<and>
    length products' > 0
    \<longrightarrow> scrapeLoop Extract maxProducts products n seen c = Some (Inr products', c1))"
proof (intro conjI impI)
  from recorded_run_returns [of Extract ctx maxProducts] obtain res ctx' calls where
    run: "scrapeProducts (recording Extract) (ctx, []) maxProducts = Some (res, ctx', calls)"
    by (elim exE)
  have "\<forall>pre page pageProducts post.
        calls = pre @ (page, Inr pageProducts) # post \<and>
        URL ` set pageProducts \<subseteq> URL ` set (delivered pre) \<longrightarrow>
        post = [] \<and> res = Inr (firstSeen (delivered pre))"
    using run_stop [OF run] by blast
  with run show "\<exists>res ctx' calls.
      scrapeProducts (recording Extract) (ctx, []) maxProducts = Some (res, ctx', calls) \<and>
      (\<forall>pre page pageProducts post.
         calls = pre @ (page, Inr pageProducts) # post \<and>
         URL ` set pageProducts \<subseteq> URL ` set (delivered pre) \<longrightarrow>
         post = [] \<and> res = Inr (firstSeen (delivered pre)))"
    by (intro exI conjI)
next
  assume "int (length products) < maxProducts \<and> Extract c n = (Inr ps, c1) \<and> ps \<noteq> [] \<and>
    addProductsWithoutDuplicates products ps seen maxProducts = (products', seen', 0) \<and>
    length products' > 0"
  then have a: "int (length products) < maxProducts" "Extract c n = (Inr ps, c1)" "ps \<noteq> []"
    "addProductsWithoutDuplicates products ps seen maxProducts = (products', seen', 0)"
    "products' \<noteq> []"
    by simp_all
  show "scrapeLoop Extract maxProducts products n seen c = Some (Inr products', c1)"
    by (rule scrapeLoop_no_new [where e = Extract and ctx = c, OF a])
qed

text \<open>
  Scenario C: page 1 holds two products, page 2 the same two, and page 3 a third product
  that is never asked for. The run makes two calls and returns the two products.
\<close>

theorem scrapeProducts_stops_without_new_witness:
  "scrapeProducts
     (recording (scripted [Inr [item ''/products/a'' ''A'', item ''/products/b'' ''B''],
                           Inr [item ''/products/a'' ''A'', item ''/products/b'' ''B''],
                           Inr [item ''/products/c'' ''C'']] :: (string, unit) extractor))
     ((), []) 100
     = Some (Inr [item ''/products/a'' ''A'', item ''/products/b'' ''B''], (),
         [(1, Inr [item ''/products/a'' ''A'', item ''/products/b'' ''B'']),
          (2, Inr [item ''/products/a'' ''A'', item ''/products/b'' ''B''])]) \<and>
   (Inr [item ''/products/a'' ''A'', item ''/products/b'' ''B''] :: string scrape_error + Product list)
     = Inr (firstSeen (delivered
         [(1 :: int, Inr [item ''/products/a'' ''A'', item ''/products/b'' ''B''] :: string + Product list)])) \<and>
   scrapeLoop
     (scripted [Inr [item ''/products/a'' ''A'', item ''/products/b'' ''B''],
                Inr [item ''/products/a'' ''A'', item ''/products/b'' ''B''],
                Inr [item ''/products/c'' ''C'']] :: (string, unit) extractor)
     100 [item ''/products/a'' ''A'', item ''/products/b'' ''B''] 2
     {''/products/a'', ''/products/b''} ()
     = Some (Inr [item ''/products/a'' ''A'', item ''/products/b'' ''B''], ())"
proof -
  let ?two = "[item ''/products/a'' ''A'', item ''/products/b'' ''B'']"
  let ?e = "scripted [Inr ?two, Inr ?two, Inr [item ''/products/c'' ''C'']]
      :: (string, unit) extractor"
  let ?pre = "[(1, Inr ?two)] :: string calls"
  let ?seen = "{''/products/a'', ''/products/b''}"
  have eval: "scrapeProducts (recording ?e) ((), []) 100 =
      Some (Inr ?two, (), [(1, Inr ?two), (2, Inr ?two)])"
    by code_simp
  note t = scrapeProducts_stops_without_new [of ?e "()" 100 ?two "()" 2 ?two "()" ?seen ?two ?seen]
  from t [THEN conjunct1]
  obtain res ctx' calls where
    run: "scrapeProducts (recording ?e) ((), []) 100 = Some (res, ctx', calls)" and
    stop: "\<forall>pre page pageProducts post.
         calls = pre @ (page, Inr pageProducts) # post \<and>
         URL ` set pageProducts \<subseteq> URL ` set (delivered pre) \<longrightarrow>
         post = [] \<and> res = Inr (firstSeen (delivered pre))"
    by (elim exE conjE)
  from run have same: "res = Inr ?two" "calls = [(1, Inr ?two), (2, Inr ?two)]"
    unfolding eval by simp_all
  have hyp: "calls = ?pre @ (2, Inr ?two) # [] \<and>
      URL ` set ?two \<subseteq> URL ` set (delivered ?pre)"
    unfolding same by simp
  from stop [rule_format, of ?pre 2 ?two "[]", OF hyp, THEN conjunct2]
  have "res = Inr (firstSeen (delivered ?pre))" .
  then have whole: "(Inr ?two :: string scrape_error + Product list)
      = Inr (firstSeen (delivered ?pre))"
    unfolding same .
  have page2: "?e () 2 = (Inr ?two, ())" by (simp add: scripted_def)
  have add: "addProductsWithoutDuplicates ?two ?two ?seen 100 = (?two, ?seen, 0)"
    by (simp add: addProductsWithoutDuplicates_def item_def)
  have branch: "scrapeLoop ?e 100 ?two 2 ?seen () = Some (Inr ?two, ())"
    by (rule t [THEN conjunct2, THEN mp]) (intro conjI page2 add, simp_all)
  from eval whole branch show ?thesis by (intro conjI)
qed

section \<open>The empty-page stop\<close>

text \<open>
  Claim C7. Every run returns, and when the extractor answered some call with an empty
  list of records, that call is the last one and the run succeeds, with the catalog
  accumulated from the pages before; when the first page is empty the run succeeds with no
  record. The last part is the same at the place of the code: from any state of the loop
  below the budget, an empty page makes the loop return the slice as it is, with no error.
\<close>

theorem scrapeProducts_stops_on_empty_page:
  "(\<exists>res ctx' calls.
      scrapeProducts (recording Extract) (ctx, []) maxProducts = Some (res, ctx', calls) \<and>
      (\<forall>pre page post. calls = pre @ (page, Inr []) # post \<longrightarrow>
         post = [] \<and> res = Inr (firstSeen (delivered pre))) \<and>
      (\<forall>ctx1. Extract ctx 1 = (Inr [], ctx1) \<longrightarrow> res = Inr [])) \<and>
   (int (length products) < maxProducts \<and> Extract c n = (Inr [], c1)
    \<longrightarrow> scrapeLoop Extract maxProducts products n seen c = Some (Inr products, c1))"
proof (intro conjI impI)
  from recorded_run_returns [of Extract ctx maxProducts] obtain res ctx' calls where
    run: "scrapeProducts (recording Extract) (ctx, []) maxProducts = Some (res, ctx', calls)"
    by (elim exE)
  have general: "\<forall>pre page post. calls = pre @ (page, Inr []) # post \<longrightarrow>
        post = [] \<and> res = Inr (firstSeen (delivered pre))"
    using run_stop [OF run, where pageProducts = "[]"] by simp
  have first: "\<forall>ctx1. Extract ctx 1 = (Inr [], ctx1) \<longrightarrow> res = Inr []"
  proof (intro allI impI)
    fix ctx1
    assume e: "Extract ctx 1 = (Inr [], ctx1)"
    from run have "scrapeLoop (recording Extract) maxProducts [] 1 {} (ctx, [])
        = Some (res, ctx', calls)"
      by (simp add: scrapeProducts_def)
    then show "res = Inr []"
      by (cases rule: recorded_cases) (use e in auto)
  qed
  from run general first show "\<exists>res ctx' calls.
      scrapeProducts (recording Extract) (ctx, []) maxProducts = Some (res, ctx', calls) \<and>
      (\<forall>pre page post. calls = pre @ (page, Inr []) # post \<longrightarrow>
         post = [] \<and> res = Inr (firstSeen (delivered pre))) \<and>
      (\<forall>ctx1. Extract ctx 1 = (Inr [], ctx1) \<longrightarrow> res = Inr [])"
    by (intro exI conjI)
next
  assume "int (length products) < maxProducts \<and> Extract c n = (Inr [], c1)"
  then have a: "int (length products) < maxProducts" "Extract c n = (Inr [], c1)"
    by simp_all
  show "scrapeLoop Extract maxProducts products n seen c = Some (Inr products, c1)"
    by (rule scrapeLoop_empty [where e = Extract and ctx = c, OF a])
qed

text \<open>
  Scenario E: the first page is empty, and the run succeeds with no record. On a
  storefront with one product on page 1 and nothing after it, the run stops at page 2 and
  returns the product.
\<close>

theorem scrapeProducts_stops_on_empty_page_witness:
  "(\<exists>ctx' calls.
      scrapeProducts (recording (scripted [] :: (string, unit) extractor)) ((), []) 100
        = Some (Inr [], ctx', calls)) \<and>
   scrapeProducts
     (recording (scripted [Inr [item ''/products/a'' ''A'']] :: (string, unit) extractor))
     ((), []) 100
     = Some (Inr [item ''/products/a'' ''A''], (),
         [(1, Inr [item ''/products/a'' ''A'']), (2, Inr [])]) \<and>
   (Inr [item ''/products/a'' ''A''] :: string scrape_error + Product list)
     = Inr (firstSeen (delivered
         [(1 :: int, Inr [item ''/products/a'' ''A''] :: string + Product list)])) \<and>
   scrapeLoop (scripted [Inr [item ''/products/a'' ''A'']] :: (string, unit) extractor)
     100 [item ''/products/a'' ''A''] 2 {''/products/a''} ()
     = Some (Inr [item ''/products/a'' ''A''], ())"
proof -
  let ?none = "scripted [] :: (string, unit) extractor"
  have page1: "?none () 1 = (Inr [], ())" by (simp add: scripted_def)
  from scrapeProducts_stops_on_empty_page [THEN conjunct1, of ?none "()" 100]
  obtain res ctx' calls where
    run: "scrapeProducts (recording ?none) ((), []) 100 = Some (res, ctx', calls)" and
    first: "\<forall>ctx1. ?none () 1 = (Inr [], ctx1) \<longrightarrow> res = Inr []"
    by (elim exE conjE)
  from first [rule_format, OF page1] have "res = Inr []" .
  with run have scenario: "\<exists>ctx' calls.
      scrapeProducts (recording ?none) ((), []) 100 = Some (Inr [], ctx', calls)"
    by (intro exI) simp
  let ?one = "[item ''/products/a'' ''A'']"
  let ?e = "scripted [Inr ?one] :: (string, unit) extractor"
  let ?pre = "[(1, Inr ?one)] :: string calls"
  have eval: "scrapeProducts (recording ?e) ((), []) 100 =
      Some (Inr ?one, (), [(1, Inr ?one), (2, Inr [])])"
    by code_simp
  note t = scrapeProducts_stops_on_empty_page [of ?e "()" 100 ?one "()" 2 "()" "{''/products/a''}"]
  from t [THEN conjunct1]
  obtain res2 ctx2 calls2 where
    run2: "scrapeProducts (recording ?e) ((), []) 100 = Some (res2, ctx2, calls2)" and
    stop: "\<forall>pre page post. calls2 = pre @ (page, Inr []) # post \<longrightarrow>
         post = [] \<and> res2 = Inr (firstSeen (delivered pre))"
    by (elim exE conjE)
  from run2 have same: "res2 = Inr ?one" "calls2 = [(1, Inr ?one), (2, Inr [])]"
    unfolding eval by simp_all
  have hyp: "calls2 = ?pre @ (2, Inr []) # []"
    unfolding same by simp
  from stop [rule_format, of ?pre 2 "[]", OF hyp, THEN conjunct2]
  have "res2 = Inr (firstSeen (delivered ?pre))" .
  then have whole: "(Inr ?one :: string scrape_error + Product list)
      = Inr (firstSeen (delivered ?pre))"
    unfolding same .
  have page2: "?e () 2 = (Inr [], ())" by (simp add: scripted_def)
  have branch: "scrapeLoop ?e 100 ?one 2 {''/products/a''} () = Some (Inr ?one, ())"
    by (rule t [THEN conjunct2, THEN mp]) (intro conjI page2, simp)
  from scenario eval whole branch show ?thesis by (intro conjI)
qed

section \<open>Order\<close>

text \<open>
  Claim C8. The records of the catalog are in the order in which their URLs were first
  observed. With the delivered pages laid end to end in the order of the calls, each page
  in its own order, the catalog is the list of the first occurrences of the URLs, cut at
  \<open>maxProducts\<close> records; in particular it is a subsequence of the delivered records, so
  within a page the order of the page is kept and the survivors of a page come before the
  survivors of every later page.
\<close>

theorem scrapeProducts_first_seen_order:
  "scrapeProducts (recording Extract) (ctx, []) maxProducts = Some (Inr catalog, ctx', calls) \<Longrightarrow>
   catalog = take (nat maxProducts) (firstSeen (delivered calls)) \<and>
   subseq catalog (delivered calls)"
proof -
  assume run: "scrapeProducts (recording Extract) (ctx, []) maxProducts
      = Some (Inr catalog, ctx', calls)"
  from run_catalog [OF run]
  have eq: "catalog = take (nat maxProducts) (firstSeen (delivered calls))"
    by (simp add: addPWD_firstSeen)
  have "subseq (take (nat maxProducts) (firstSeen (delivered calls))) (firstSeen (delivered calls))"
    by (rule take_subseq)
  from subseq_order.trans [OF this firstSeen_subseq] eq show ?thesis by simp
qed

text \<open>
  Two pages that share a URL, the second also repeating one of its own: the catalog is a,
  b, c, d, with the first record seen for each URL.
\<close>

theorem scrapeProducts_first_seen_order_witness:
  "scrapeProducts
     (recording (scripted [Inr [item ''/products/a'' ''A'', item ''/products/b'' ''B''],
                           Inr [item ''/products/c'' ''C'', item ''/products/b'' ''B again'',
                                item ''/products/c'' ''C again'', item ''/products/d'' ''D'']]
        :: (string, unit) extractor))
     ((), []) 100
     = Some (Inr [item ''/products/a'' ''A'', item ''/products/b'' ''B'',
                  item ''/products/c'' ''C'', item ''/products/d'' ''D''], (),
         [(1, Inr [item ''/products/a'' ''A'', item ''/products/b'' ''B'']),
          (2, Inr [item ''/products/c'' ''C'', item ''/products/b'' ''B again'',
                   item ''/products/c'' ''C again'', item ''/products/d'' ''D'']),
          (3, Inr [])]) \<and>
   subseq [item ''/products/a'' ''A'', item ''/products/b'' ''B'',
           item ''/products/c'' ''C'', item ''/products/d'' ''D'']
     [item ''/products/a'' ''A'', item ''/products/b'' ''B'',
      item ''/products/c'' ''C'', item ''/products/b'' ''B again'',
      item ''/products/c'' ''C again'', item ''/products/d'' ''D'']"
proof -
  let ?p1 = "[item ''/products/a'' ''A'', item ''/products/b'' ''B'']"
  let ?p2 = "[item ''/products/c'' ''C'', item ''/products/b'' ''B again'',
              item ''/products/c'' ''C again'', item ''/products/d'' ''D'']"
  let ?e = "scripted [Inr ?p1, Inr ?p2] :: (string, unit) extractor"
  let ?calls = "[(1, Inr ?p1), (2, Inr ?p2), (3, Inr [])] :: string calls"
  let ?catalog = "[item ''/products/a'' ''A'', item ''/products/b'' ''B'',
                   item ''/products/c'' ''C'', item ''/products/d'' ''D'']"
  have eval: "scrapeProducts (recording ?e) ((), []) 100 = Some (Inr ?catalog, (), ?calls)"
    by code_simp
  from scrapeProducts_first_seen_order [OF eval, THEN conjunct2]
  have "subseq ?catalog (?p1 @ ?p2)" by simp
  then have "subseq ?catalog
     [item ''/products/a'' ''A'', item ''/products/b'' ''B'',
      item ''/products/c'' ''C'', item ''/products/b'' ''B again'',
      item ''/products/c'' ''C again'', item ''/products/d'' ''D'']"
    by simp
  with eval show ?thesis by (rule conjI)
qed

section \<open>Page numbers\<close>

text \<open>
  Claim C9. The page numbers a run passes to the extractor are 1, 2, 3, and so on, in this
  order, as far as the run goes: the first call is for page 1, each later call is for the
  page after the one before, no page is skipped and none is asked twice. So every call has
  a page number of at least 1; it is also at most \<open>maxProducts\<close>, so the counter of the Go
  code stays within the range of its \<^verbatim>\<open>int\<close>.
\<close>

theorem scrapeProducts_page_sequence:
  "scrapeProducts (recording Extract) (ctx, []) maxProducts = Some (res, ctx', calls) \<Longrightarrow>
   map fst calls = [1..int (length calls)] \<and>
   (\<forall>call \<in> set calls. 1 \<le> fst call \<and> fst call \<le> maxProducts)"
proof -
  assume run: "scrapeProducts (recording Extract) (ctx, []) maxProducts = Some (res, ctx', calls)"
  note pages = run_pages [OF run]
  have "1 \<le> fst call \<and> fst call \<le> maxProducts" if "call \<in> set calls" for call
  proof -
    from that have "fst call \<in> set (map fst calls)" by simp
    with pages(1) have "1 \<le> fst call" "fst call \<le> int (length calls)" by simp_all
    with pages(2) show ?thesis by simp
  qed
  with pages(1) show ?thesis by blast
qed

text \<open>Three calls, for the pages 1, 2 and 3, the last of which is empty.\<close>

theorem scrapeProducts_page_sequence_witness:
  "scrapeProducts
     (recording (scripted [Inr [item ''/products/a'' ''A''], Inr [item ''/products/b'' ''B'']]
        :: (string, unit) extractor))
     ((), []) 100
     = Some (Inr [item ''/products/a'' ''A'', item ''/products/b'' ''B''], (),
         [(1, Inr [item ''/products/a'' ''A'']), (2, Inr [item ''/products/b'' ''B'']),
          (3, Inr [])]) \<and>
   map fst [(1 :: int, Inr [item ''/products/a'' ''A''] :: string + Product list),
            (2, Inr [item ''/products/b'' ''B'']), (3, Inr [])] = [1..3]"
proof -
  let ?e = "scripted [Inr [item ''/products/a'' ''A''], Inr [item ''/products/b'' ''B'']]
      :: (string, unit) extractor"
  let ?calls = "[(1, Inr [item ''/products/a'' ''A'']),
            (2, Inr [item ''/products/b'' ''B'']), (3, Inr [])] :: string calls"
  have eval: "scrapeProducts (recording ?e) ((), []) 100 =
      Some (Inr [item ''/products/a'' ''A'', item ''/products/b'' ''B''], (), ?calls)"
    by code_simp
  from scrapeProducts_page_sequence [OF eval, THEN conjunct1]
  have "map fst ?calls = [1..3]" by simp
  with eval show ?thesis by (rule conjI)
qed

section \<open>Determinism\<close>

text \<open>
  Claim C10. The result of a run depends on the extractor only through the responses to
  the page numbers. When two extractors answer every page number as one fixed mapping
  from page numbers to responses does, whatever their session states are and however they
  change them, the two runs with the same \<open>maxProducts\<close> both return, and return the same
  result: the same catalog in the same order, or the same error.
\<close>

theorem scrapeProducts_deterministic:
  "(\<forall>c page. fst (Extract1 c page) = responses page) \<and>
   (\<forall>c page. fst (Extract2 c page) = responses page) \<longrightarrow>
   (\<exists>res ctx1' ctx2'.
      scrapeProducts Extract1 ctx1 maxProducts = Some (res, ctx1') \<and>
      scrapeProducts Extract2 ctx2 maxProducts = Some (res, ctx2'))"
proof
  assume a: "(\<forall>c page. fst (Extract1 c page) = responses page) \<and>
   (\<forall>c page. fst (Extract2 c page) = responses page)"
  from plain_run_returns [of Extract1 ctx1 maxProducts] obtain res ctx1' where
    r1: "scrapeProducts Extract1 ctx1 maxProducts = Some (res, ctx1')" by (elim exE)
  from plain_run_returns [of Extract2 ctx2 maxProducts] obtain res2 ctx2' where
    r2: "scrapeProducts Extract2 ctx2 maxProducts = Some (res2, ctx2')" by (elim exE)
  have "map_option fst (scrapeLoop Extract1 maxProducts [] 1 (URL ` set ([] :: Product list)) ctx1) =
        map_option fst (scrapeLoop Extract2 maxProducts [] 1 (URL ` set ([] :: Product list)) ctx2)"
    by (rule same_responses [where responses = responses]) (use a in auto)
  with r1 r2 have "res2 = res" by (simp add: scrapeProducts_def)
  with r1 r2 show "\<exists>res ctx1' ctx2'.
      scrapeProducts Extract1 ctx1 maxProducts = Some (res, ctx1') \<and>
      scrapeProducts Extract2 ctx2 maxProducts = Some (res, ctx2')"
    by (intro exI [of _ res] exI [of _ ctx1'] exI [of _ ctx2']) simp
qed

text \<open>
  The same scripted storefront, once with a session state that never changes and once
  with a session state that records every call: the two runs return the same result.
\<close>

theorem scrapeProducts_deterministic_witness:
  "\<exists>res ctx1' ctx2'.
     scrapeProducts
       (scripted [Inr [item ''/products/a'' ''A''], Inl ''page load error'']
          :: (string, unit) extractor) () 100 = Some (res, ctx1') \<and>
     scrapeProducts
       (recording (scripted [Inr [item ''/products/a'' ''A''], Inl ''page load error'']
          :: (string, unit) extractor)) ((), []) 100 = Some (res, ctx2')"
proof -
  let ?rs = "[Inr [item ''/products/a'' ''A''], Inl ''page load error'']
      :: (string + Product list) list"
  let ?e = "scripted ?rs :: (string, unit) extractor"
  have one: "\<forall>c page. fst (?e c page) = fst (?e () page)"
    by (simp add: scripted_def)
  have two: "\<forall>c page. fst (recording ?e c page) = fst (?e () page)"
    by (simp add: recording_def scripted_def split: prod.splits)
  show ?thesis
    by (rule scrapeProducts_deterministic [where responses = "\<lambda>page. fst (?e () page)",
          THEN mp]) (intro conjI one two)
qed

end
